theory Spec2Isabelle
  imports Main
begin

section \<open>Wildcard matching over an immutable radix tree\<close>

text \<open>
  The development embeds \<^verbatim>\<open>wildcard.go\<close> (package \<^verbatim>\<open>iradix\<close>): the method
  \<^verbatim>\<open>MatchWithWildcards\<close> and its recursive helper \<^verbatim>\<open>matchWithWildcardsFrom\<close>.
  A Go \<^verbatim>\<open>[]byte\<close> is a list of 8-bit characters; only equality of bytes is ever used.
\<close>

subsection \<open>The tree the matcher reads\<close>

text \<open>
  Modelled from the spec: the type \<^verbatim>\<open>Node[T]\<close> is declared outside \<^verbatim>\<open>wildcard.go\<close>.
  The matcher reads three things of a node: whether it is terminal (\<^verbatim>\<open>isLeaf\<close>, the
  node holds the value of a stored key), its \<^verbatim>\<open>prefix\<close> (the byte sequence labelling
  the edge that leads to it) and its outgoing edges, each looked up by one byte.
  The radix invariants of the spec (labels non-empty, the lookup byte is the first byte
  of the label, no two sibling edges share it) are the predicates \<open>nonempty_labels\<close> and
  \<open>radix_ok\<close> below; they are not built into the type, so a theorem without them
  holds for every tree, malformed ones included.
\<close>

datatype 'a node = Node (leaf: "'a option") (prefix: string) (edges: "(char \<times> 'a node) list")

text \<open>Modelled from the spec: \<^verbatim>\<open>isLeaf\<close>, true if some stored pattern ends exactly at the node.\<close>

definition isLeaf :: "'a node \<Rightarrow> bool" where
  "isLeaf n = (leaf n \<noteq> None)"

text \<open>
  Modelled from the spec: \<^verbatim>\<open>getEdge\<close>, the child reached by the single outgoing edge
  for the given byte, or \<open>None\<close> (Go: \<^verbatim>\<open>nil\<close>) when there is none. The index that the
  Go method also returns is discarded at every call site of \<^verbatim>\<open>wildcard.go\<close>.
\<close>

definition getEdge :: "'a node \<Rightarrow> char \<Rightarrow> 'a node option" where
  "getEdge n label = map_of (edges n) label"

text \<open>\<^verbatim>\<open>bytes.HasPrefix(s, p)\<close> of the Go standard library: \<^verbatim>\<open>len(s) >= len(p) && s[:len(p)] == p\<close>.\<close>

definition HasPrefix :: "string \<Rightarrow> string \<Rightarrow> bool" where
  "HasPrefix s p = (length p \<le> length s \<and> take (length p) s = p)"

lemma getEdge_size [termination_simp]:
  "getEdge n b = Some c \<Longrightarrow> size c < size n"
proof -
  have aux: "map_of es b = Some c \<Longrightarrow> size c < Suc (size_list (size_prod (\<lambda>_. 0) size) es)"
    for es :: "(char \<times> 'a node) list"
    by (induction es) (auto split: if_splits)
  show "getEdge n b = Some c \<Longrightarrow> size c < size n"
    using aux [of "edges n"] by (cases n) (simp add: getEdge_def)
qed

text \<open>
  Modelled from the spec: \<^verbatim>\<open>Get\<close>, the exact membership test for a full key. It is the
  plain radix descent: at the end of the key the node must be terminal, otherwise the
  edge for the next byte must exist and its whole label must be a prefix of what is
  left of the key. The prefix of the node the descent starts from is not read.
\<close>

function Get :: "'a node \<Rightarrow> string \<Rightarrow> 'a option" where
  "Get n search =
     (if length search = 0 then leaf n
      else case getEdge n (hd search) of
        None \<Rightarrow> None
      | Some c \<Rightarrow>
          if HasPrefix search (prefix c) then Get c (drop (length (prefix c)) search)
          else None)"
  by pat_completeness auto
termination
  by (relation "measure (\<lambda>(n, search). size n)") (auto simp: getEdge_size)

declare Get.simps [simp del]

subsection \<open>The matcher\<close>

text \<open>
  Lines 45 to 49 of \<^verbatim>\<open>wildcard.go\<close>: the node has an edge for the byte \<^verbatim>\<open>'*'\<close> and the
  child on it is terminal.
\<close>

definition wildcardEdge :: "'a node \<Rightarrow> bool" where
  "wildcardEdge n =
     (case getEdge n CHR ''*'' of None \<Rightarrow> False | Some wildcardNode \<Rightarrow> isLeaf wildcardNode)"

text \<open>
  Lines 58 to 72: the label of \<open>next\<close> ends in the two bytes \<^verbatim>\<open>.*\<close>, \<open>next\<close> is terminal,
  the label without these two bytes is a prefix of \<open>search\<close>, and \<open>search\<close> ends there or
  goes on with a dot. The index reads are guarded by the length tests exactly as in the
  source, so no read is out of range.
\<close>

definition wildcardSuffix :: "'a node \<Rightarrow> string \<Rightarrow> bool" where
  "wildcardSuffix next search =
     (length (prefix next) \<ge> 2 \<and>
      prefix next ! (length (prefix next) - 2) = CHR ''.'' \<and>
      prefix next ! (length (prefix next) - 1) = CHR ''*'' \<and>
      isLeaf next \<and>
      (let wildcardPrefix = take (length (prefix next) - 2) (prefix next) in
         HasPrefix search wildcardPrefix \<and>
         (length search = length wildcardPrefix \<or>
          (length search > length wildcardPrefix \<and>
           search ! length wildcardPrefix = CHR ''.''))))"

text \<open>Lines 37 to 86: \<^verbatim>\<open>matchWithWildcardsFrom\<close>.\<close>

function matchWithWildcardsFrom :: "'a node \<Rightarrow> string \<Rightarrow> string \<Rightarrow> bool" where
  "matchWithWildcardsFrom n originalKey search =
     (if length search = 0 then isLeaf n
      else if wildcardEdge n then True
      else case getEdge n (hd search) of
        None \<Rightarrow> False
      | Some next \<Rightarrow>
          if wildcardSuffix next search then True
          else if HasPrefix search (prefix next) then
            matchWithWildcardsFrom next originalKey (drop (length (prefix next)) search)
          else if HasPrefix (prefix next) search then
            isLeaf next \<and> length search = length (prefix next)
          else False)"
  by pat_completeness auto
termination
  by (relation "measure (\<lambda>(n, originalKey, search). size n)") (auto simp: getEdge_size)

declare matchWithWildcardsFrom.simps [simp del]

text \<open>Lines 19 to 32: \<^verbatim>\<open>MatchWithWildcards\<close>.\<close>

definition MatchWithWildcards :: "'a node \<Rightarrow> string \<Rightarrow> bool" where
  "MatchWithWildcards n key =
     (if length key = 0 then Get n key \<noteq> None
      else if Get n ''*'' \<noteq> None then True
      else matchWithWildcardsFrom n key key)"

subsection \<open>The same descent, counting calls\<close>

text \<open>
  \<^verbatim>\<open>matchWithWildcardsFrom\<close> again, line for line, with a bound on the number of
  calls: a call that finds the bound used up does not answer (\<open>None\<close>). It is used to
  state how deep the recursion goes.
\<close>

fun matchFuel :: "nat \<Rightarrow> 'a node \<Rightarrow> string \<Rightarrow> string \<Rightarrow> bool option" where
  "matchFuel 0 n originalKey search = None"
| "matchFuel (Suc fuel) n originalKey search =
     (if length search = 0 then Some (isLeaf n)
      else if wildcardEdge n then Some True
      else case getEdge n (hd search) of
        None \<Rightarrow> Some False
      | Some next \<Rightarrow>
          if wildcardSuffix next search then Some True
          else if HasPrefix search (prefix next) then
            matchFuel fuel next originalKey (drop (length (prefix next)) search)
          else if HasPrefix (prefix next) search then
            Some (isLeaf next \<and> length search = length (prefix next))
          else Some False)"

subsection \<open>What a tree stores, and when it is well formed\<close>

text \<open>
  Modelled from the spec: insertion is outside \<^verbatim>\<open>wildcard.go\<close>. The stored patterns
  of a tree are the concatenations of the edge labels along the paths from the node to
  the terminal nodes below it (the node's own prefix belongs to the edge above it).
\<close>

fun stored :: "'a node \<Rightarrow> string list" where
  "stored (Node lf p es) =
     (case lf of None \<Rightarrow> [] | Some v \<Rightarrow> [[]]) @
     concat (map (\<lambda>e. map (\<lambda>k. prefix (snd e) @ k) (stored (snd e))) es)"

text \<open>Modelled from the spec: every edge label below the node is a non-empty byte sequence.\<close>

fun nonempty_labels :: "'a node \<Rightarrow> bool" where
  "nonempty_labels (Node lf p es) =
     list_all (\<lambda>e. prefix (snd e) \<noteq> [] \<and> nonempty_labels (snd e)) es"

text \<open>
  Modelled from the spec: the radix invariant. Below the node, no two sibling edges are
  looked up by the same byte, every label is non-empty, and an edge is looked up by the
  first byte of its label.
\<close>

fun radix_ok :: "'a node \<Rightarrow> bool" where
  "radix_ok (Node lf p es) =
     (distinct (map fst es) \<and>
      list_all (\<lambda>e. prefix (snd e) \<noteq> [] \<and> hd (prefix (snd e)) = fst e \<and> radix_ok (snd e)) es)"

text \<open>
  A well-formed pattern, after the spec: the single key \<^verbatim>\<open>*\<close>, a key ending in \<^verbatim>\<open>.*\<close>
  with no other \<^verbatim>\<open>*\<close> in it, or an exact key, which has no \<^verbatim>\<open>*\<close> at all.
\<close>

definition wf_pattern :: "string \<Rightarrow> bool" where
  "wf_pattern k =
     (k = ''*'' \<or>
      (length k \<ge> 2 \<and> drop (length k - 2) k = ''.*'' \<and>
       CHR ''*'' \<notin> set (take (length k - 2) k)) \<or>
      CHR ''*'' \<notin> set k)"

text \<open>
  The contract of the spec, in its words, over the list of stored patterns: the key is
  an exact stored pattern, or a stored pattern is \<open>p\<close> followed by \<^verbatim>\<open>.*\<close> where the key
  is \<open>p\<close> or starts with \<open>p\<close> and a dot, or \<^verbatim>\<open>*\<close> is stored and the key is non-empty.
\<close>

definition segment_wildcard :: "string \<Rightarrow> string \<Rightarrow> bool" where
  "segment_wildcard pat key =
     (length pat \<ge> 2 \<and> drop (length pat - 2) pat = ''.*'' \<and>
      (key = take (length pat - 2) pat \<or>
       HasPrefix key (take (length pat - 2) pat @ ''.'')))"

definition contract_matches :: "string list \<Rightarrow> string \<Rightarrow> bool" where
  "contract_matches pats key =
     (key \<in> set pats \<or>
      list_ex (\<lambda>pat. segment_wildcard pat key) pats \<or>
      (''*'' \<in> set pats \<and> key \<noteq> []))"

subsection \<open>Some trees\<close>

text \<open>The tree storing only \<^verbatim>\<open>tenant.*\<close>: one edge from the root.\<close>

definition tree_tenant :: "unit node" where
  "tree_tenant = Node None [] [(CHR ''t'', Node (Some ()) ''tenant.*'' [])]"

text \<open>The tree storing \<^verbatim>\<open>tenant.*\<close> and \<^verbatim>\<open>tenant.abc\<close>: the edge splits after the dot.\<close>

definition tree_tenant_abc :: "unit node" where
  "tree_tenant_abc =
     Node None [] [(CHR ''t'', Node None ''tenant.''
       [(CHR ''*'', Node (Some ()) ''*'' []),
        (CHR ''a'', Node (Some ()) ''abc'' [])])]"

text \<open>The tree storing \<^verbatim>\<open>tenant.*\<close> and \<^verbatim>\<open>tenant.abc123.*\<close>, two wildcard patterns.\<close>

definition tree_two_wildcards :: "unit node" where
  "tree_two_wildcards =
     Node None [] [(CHR ''t'', Node None ''tenant.''
       [(CHR ''*'', Node (Some ()) ''*'' []),
        (CHR ''a'', Node (Some ()) ''abc123.*'' [])])]"

text \<open>The tree storing \<^verbatim>\<open>a.*x\<close> and \<^verbatim>\<open>a.b\<close>: the first has \<^verbatim>\<open>.*\<close> inside, not at its end.\<close>

definition tree_inner_star :: "unit node" where
  "tree_inner_star =
     Node None [] [(CHR ''a'', Node None ''a.''
       [(CHR ''*'', Node (Some ()) ''*x'' []),
        (CHR ''b'', Node (Some ()) ''b'' [])])]"

text \<open>The tree storing \<^verbatim>\<open>tenant.*\<close> and \<^verbatim>\<open>tenantXYZ.foo\<close>: the edge splits before the dot.\<close>

definition tree_tenant_xyz :: "unit node" where
  "tree_tenant_xyz =
     Node None [] [(CHR ''t'', Node None ''tenant''
       [(CHR ''.'', Node (Some ()) ''.*'' []),
        (CHR ''X'', Node (Some ()) ''XYZ.foo'' [])])]"

text \<open>The tree storing only \<^verbatim>\<open>*\<close>, and the tree storing only the exact key \<^verbatim>\<open>tenant.abc\<close>.\<close>

definition tree_star :: "unit node" where
  "tree_star = Node None [] [(CHR ''*'', Node (Some ()) ''*'' [])]"

definition tree_exact :: "unit node" where
  "tree_exact = Node None [] [(CHR ''t'', Node (Some ()) ''tenant.abc'' [])]"

section \<open>Properties\<close>

subsection \<open>Facts about the tree\<close>

lemma HasPrefix_iff: "HasPrefix s p \<longleftrightarrow> (\<exists>r. s = p @ r)"
  unfolding HasPrefix_def
  by (metis append_eq_conv_conj append_take_drop_id le_add1 length_append)

lemma HasPrefix_append [simp]: "HasPrefix (p @ r) p"
  by (simp add: HasPrefix_def)

lemma stored_leaf: "isLeaf n \<Longrightarrow> [] \<in> set (stored n)"
  by (cases n) (auto simp: isLeaf_def)

lemma getEdge_mem: "getEdge n b = Some c \<Longrightarrow> (b, c) \<in> set (edges n)"
  by (simp add: getEdge_def map_of_SomeD)

lemma stored_child:
  "getEdge n b = Some c \<Longrightarrow> k \<in> set (stored c) \<Longrightarrow> prefix c @ k \<in> set (stored n)"
  by (cases n) (force dest: getEdge_mem)

lemma stored_cases:
  "k \<in> set (stored n) \<Longrightarrow>
     (k = [] \<and> isLeaf n) \<or>
     (\<exists>b c k'. (b, c) \<in> set (edges n) \<and> k' \<in> set (stored c) \<and> k = prefix c @ k')"
  by (cases n) (fastforce simp: isLeaf_def split: option.splits)

lemma radix_ok_child:
  "radix_ok n \<Longrightarrow> (b, c) \<in> set (edges n) \<Longrightarrow>
     radix_ok c \<and> prefix c \<noteq> [] \<and> hd (prefix c) = b \<and> getEdge n b = Some c"
  by (cases n) (auto simp: list_all_iff getEdge_def)

lemma nonempty_labels_mem:
  "nonempty_labels n \<Longrightarrow> (b, c) \<in> set (edges n) \<Longrightarrow> nonempty_labels c \<and> prefix c \<noteq> []"
  by (cases n) (fastforce simp: list_all_iff)

lemma radix_ok_nonempty_labels: "radix_ok n \<Longrightarrow> nonempty_labels n"
  by (induction n) (auto simp: list_all_iff)

lemma stored_Nil_iff: "nonempty_labels n \<Longrightarrow> ([] \<in> set (stored n)) = isLeaf n"
proof
  assume nl: "nonempty_labels n" and "[] \<in> set (stored n)"
  from stored_cases [OF this(2)] nonempty_labels_mem [OF nl] show "isLeaf n" by auto
qed (rule stored_leaf)

subsection \<open>Exact lookup against the stored patterns\<close>

lemma Get_Nil: "Get n [] = leaf n"
  by (simp add: Get.simps [of n "[]"])

lemma matchWithWildcardsFrom_Nil: "matchWithWildcardsFrom n originalKey [] = isLeaf n"
  by (simp add: matchWithWildcardsFrom.simps [of n _ "[]"])

text \<open>Whatever \<^verbatim>\<open>Get\<close> finds, the wildcard descent accepts: it follows the same edges.\<close>

lemma Get_imp_match:
  "Get n search \<noteq> None \<Longrightarrow> matchWithWildcardsFrom n originalKey search"
proof (induction n search rule: Get.induct)
  case (1 n search)
  show ?case
  proof (cases "length search = 0")
    case True
    with "1.prems" show ?thesis
      by (simp add: Get_Nil matchWithWildcardsFrom_Nil isLeaf_def)
  next
    case False
    with "1.prems" obtain c where c: "getEdge n (hd search) = Some c"
      and hp: "HasPrefix search (prefix c)"
      and g: "Get c (drop (length (prefix c)) search) \<noteq> None"
      by (auto simp: Get.simps [of n search] split: option.splits if_splits)
    from "1.IH" [OF False c hp g]
    have "matchWithWildcardsFrom c originalKey (drop (length (prefix c)) search)" .
    with False c hp show ?thesis
      by (simp add: matchWithWildcardsFrom.simps [of n _ search])
  qed
qed

text \<open>On a radix tree \<^verbatim>\<open>Get\<close> is the membership test for the stored patterns.\<close>

lemma Get_stored:
  "radix_ok n \<Longrightarrow> (Get n k \<noteq> None) = (k \<in> set (stored n))"
proof (induction n k rule: Get.induct)
  case (1 n search)
  show ?case
  proof (cases "length search = 0")
    case True
    with stored_Nil_iff [OF radix_ok_nonempty_labels [OF "1.prems"]] show ?thesis
      by (simp add: Get_Nil isLeaf_def)
  next
    case False
    show ?thesis
    proof
      assume "Get n search \<noteq> None"
      with False obtain c where c: "getEdge n (hd search) = Some c"
        and hp: "HasPrefix search (prefix c)"
        and g: "Get c (drop (length (prefix c)) search) \<noteq> None"
        by (auto simp: Get.simps [of n search] split: option.splits if_splits)
      from radix_ok_child [OF "1.prems" getEdge_mem [OF c]] have "radix_ok c" by simp
      from "1.IH" [OF False c hp this] g
      have "drop (length (prefix c)) search \<in> set (stored c)" by simp
      from stored_child [OF c this] hp show "search \<in> set (stored n)"
        by (auto simp: HasPrefix_iff)
    next
      assume "search \<in> set (stored n)"
      from stored_cases [OF this] False obtain b c k'
        where e: "(b, c) \<in> set (edges n)" and k': "k' \<in> set (stored c)"
          and s: "search = prefix c @ k'"
        by auto
      from radix_ok_child [OF "1.prems" e]
      have rc: "radix_ok c" and ne: "prefix c \<noteq> []" and hd: "hd (prefix c) = b"
        and ge: "getEdge n b = Some c" by simp_all
      from s ne hd have hs: "hd search = b" by simp
      have hp: "HasPrefix search (prefix c)" by (simp add: s)
      from "1.IH" [OF False ge [folded hs] hp rc] k' s
      have "Get c (drop (length (prefix c)) search) \<noteq> None" by simp
      with False ge hs hp show "Get n search \<noteq> None"
        by (simp add: Get.simps [of n search])
    qed
  qed
qed

subsection \<open>Exact keys, the universal wildcard and the empty key\<close>

text \<open>
  C6. On every radix tree, a key that is itself a stored pattern matches, whatever other
  patterns share prefixes with it.
\<close>

theorem exact_stored_key_matches:
  assumes "radix_ok root" and "k \<in> set (stored root)"
  shows "MatchWithWildcards root k"
proof -
  from Get_stored [OF assms(1), of k] assms(2) have g: "Get root k \<noteq> None" by blast
  then have "matchWithWildcardsFrom root k k" by (rule Get_imp_match)
  with g show ?thesis by (auto simp: MatchWithWildcards_def)
qed

theorem exact_stored_key_matches_witness:
  "radix_ok tree_tenant_abc \<and> ''tenant.abc'' \<in> set (stored tree_tenant_abc) \<and>
   MatchWithWildcards tree_tenant_abc ''tenant.abc''"
proof -
  have r: "radix_ok tree_tenant_abc" by code_simp
  have k: "''tenant.abc'' \<in> set (stored tree_tenant_abc)" by code_simp
  from r k exact_stored_key_matches [OF r k] show ?thesis by simp
qed

text \<open>
  C7. If the single-byte pattern \<^verbatim>\<open>*\<close> is stored, every non-empty key matches. Stored
  is read both ways: \<^verbatim>\<open>Get\<close> finds the pattern (any tree), or the tree is a radix
  tree and the pattern is among its stored patterns.
\<close>

theorem universal_wildcard_matches:
  assumes "Get root ''*'' \<noteq> None \<or> (radix_ok root \<and> ''*'' \<in> set (stored root))"
    and "k \<noteq> []"
  shows "MatchWithWildcards root k"
proof -
  from assms(1) Get_stored [of root "''*''"] have "Get root ''*'' \<noteq> None" by blast
  with assms(2) show ?thesis by (simp add: MatchWithWildcards_def)
qed

theorem universal_wildcard_matches_witness:
  "radix_ok tree_star \<and> ''*'' \<in> set (stored tree_star) \<and>
   MatchWithWildcards tree_star ''anything.at.all''"
proof -
  have r: "radix_ok tree_star \<and> ''*'' \<in> set (stored tree_star)" by code_simp
  then have h: "Get tree_star ''*'' \<noteq> None \<or> (radix_ok tree_star \<and> ''*'' \<in> set (stored tree_star))"
    by simp
  have k: "''anything.at.all'' \<noteq> []" by simp
  from r universal_wildcard_matches [OF h k] show ?thesis by simp
qed

text \<open>
  C8. On every tree the empty key matches exactly when \<^verbatim>\<open>Get\<close> finds the empty key,
  that is when the root is terminal; when the edge labels are non-empty this is
  membership of the empty key in the stored patterns. No wildcard pattern takes part,
  a stored \<^verbatim>\<open>*\<close> included.
\<close>

theorem empty_key_matches_iff_stored:
  "MatchWithWildcards root [] = (Get root [] \<noteq> None) \<and>
   (nonempty_labels root \<longrightarrow> MatchWithWildcards root [] = ([] \<in> set (stored root)))"
  by (simp add: MatchWithWildcards_def Get_Nil stored_Nil_iff isLeaf_def)

theorem empty_key_matches_iff_stored_witness:
  "nonempty_labels tree_star \<and> ''*'' \<in> set (stored tree_star) \<and>
   [] \<notin> set (stored tree_star) \<and> \<not> MatchWithWildcards tree_star []"
proof -
  have n: "nonempty_labels tree_star" by code_simp
  have s: "''*'' \<in> set (stored tree_star) \<and> [] \<notin> set (stored tree_star)" by code_simp
  from n s empty_key_matches_iff_stored [of tree_star] show ?thesis by blast
qed

subsection \<open>The original key\<close>

text \<open>
  C10. The result of \<^verbatim>\<open>matchWithWildcardsFrom\<close> does not depend on its \<^verbatim>\<open>originalKey\<close>
  argument: for every node, every remainder and any two byte sequences given as the
  original key, the two calls return the same boolean.
\<close>

theorem matchWithWildcardsFrom_originalKey_irrelevant:
  "matchWithWildcardsFrom n o1 search = matchWithWildcardsFrom n o2 search"
proof (induction n o1 search rule: matchWithWildcardsFrom.induct)
  case (1 n originalKey search)
  show ?case
  proof (cases "getEdge n (hd search)")
    case None
    then show ?thesis
      by (simp add: matchWithWildcardsFrom.simps [of n _ search])
  next
    case (Some nxt)
    show ?thesis
    proof (cases "length search \<noteq> 0 \<and> \<not> wildcardEdge n \<and> \<not> wildcardSuffix nxt search
                  \<and> HasPrefix search (prefix nxt)")
      case True
      with Some "1.IH" [of nxt] show ?thesis
        by (simp add: matchWithWildcardsFrom.simps [of n _ search])
    next
      case False
      with Some show ?thesis
        by (auto simp add: matchWithWildcardsFrom.simps [of n _ search])
    qed
  qed
qed

subsection \<open>Depth of the descent\<close>

lemma matchFuel_enough:
  "nonempty_labels n \<Longrightarrow> length search < fuel \<Longrightarrow>
     matchFuel fuel n originalKey search = Some (matchWithWildcardsFrom n originalKey search)"
proof (induction n originalKey search arbitrary: fuel rule: matchWithWildcardsFrom.induct)
  case (1 n originalKey search)
  from "1.prems"(2) obtain f where fuel: "fuel = Suc f" and f: "length search \<le> f"
    by (cases fuel) auto
  show ?case
  proof (cases "getEdge n (hd search)")
    case None
    then show ?thesis
      by (simp add: fuel matchWithWildcardsFrom.simps [of n _ search])
  next
    case (Some nxt)
    show ?thesis
    proof (cases "length search \<noteq> 0 \<and> \<not> wildcardEdge n \<and> \<not> wildcardSuffix nxt search
                  \<and> HasPrefix search (prefix nxt)")
      case True
      from nonempty_labels_mem [OF "1.prems"(1) getEdge_mem [OF Some]]
      have nl: "nonempty_labels nxt" and ne: "prefix nxt \<noteq> []" by simp_all
      from ne have p: "0 < length (prefix nxt)" by simp
      from True have "length (prefix nxt) \<le> length search" by (simp add: HasPrefix_def)
      with p f have "length search - length (prefix nxt) < f" by arith
      then have "length (drop (length (prefix nxt)) search) < f" by simp
      from "1.IH" [OF _ _ Some _ _ nl this] True
      have "matchFuel f nxt originalKey (drop (length (prefix nxt)) search) =
            Some (matchWithWildcardsFrom nxt originalKey (drop (length (prefix nxt)) search))"
        by simp
      with True Some show ?thesis
        by (simp add: fuel matchWithWildcardsFrom.simps [of n _ search])
    next
      case False
      with Some show ?thesis
        by (auto simp add: fuel matchWithWildcardsFrom.simps [of n _ search])
    qed
  qed
qed

text \<open>
  C9. On a tree whose edge labels are all non-empty the descent returns: every call
  that recurses has consumed a non-empty label, so the remainder gets strictly shorter
  and one call more than the remainder has bytes is always enough. The answer within
  that bound is the answer of \<^verbatim>\<open>matchWithWildcardsFrom\<close>.
\<close>

theorem descent_within_key_length:
  assumes "nonempty_labels n"
  shows "matchFuel (Suc (length search)) n originalKey search =
         Some (matchWithWildcardsFrom n originalKey search)"
  using assms by (simp add: matchFuel_enough del: matchFuel.simps)

theorem descent_within_key_length_witness:
  "nonempty_labels tree_tenant_abc \<and>
   matchFuel (Suc (length ''tenant.xyz'')) tree_tenant_abc ''tenant.xyz'' ''tenant.xyz'' =
     Some (matchWithWildcardsFrom tree_tenant_abc ''tenant.xyz'' ''tenant.xyz'') \<and>
   matchWithWildcardsFrom tree_tenant_abc ''tenant.xyz'' ''tenant.xyz''"
proof -
  have n: "nonempty_labels tree_tenant_abc" by code_simp
  have m: "matchWithWildcardsFrom tree_tenant_abc ''tenant.xyz'' ''tenant.xyz''" by code_simp
  from n m descent_within_key_length [OF n, of "''tenant.xyz''" "''tenant.xyz''"]
  show ?thesis by simp
qed

subsection \<open>The remainder shorter than the label\<close>

lemma HasPrefix_same_length:
  "HasPrefix p s \<Longrightarrow> length s = length p \<Longrightarrow> HasPrefix s p"
  by (auto simp: HasPrefix_iff)

text \<open>
  C4. The branch of lines 78 to 82, taken when the label of the next edge starts with
  the remainder but the remainder does not start with the label, never produces a
  true result: its test is false, so a call that reaches it returns false. The only
  true results on such an input come from the two wildcard checks that stand before
  the branch.
\<close>

theorem shorter_remainder_branch:
  assumes "length search \<noteq> 0" and "getEdge n (hd search) = Some nxt"
    and "HasPrefix (prefix nxt) search" and "\<not> HasPrefix search (prefix nxt)"
  shows "\<not> (isLeaf nxt \<and> length search = length (prefix nxt)) \<and>
         matchWithWildcardsFrom n originalKey search = (wildcardEdge n \<or> wildcardSuffix nxt search)"
proof -
  from assms(3,4) have "length search \<noteq> length (prefix nxt)"
    using HasPrefix_same_length by blast
  with assms show ?thesis
    by (simp add: matchWithWildcardsFrom.simps [of n _ search])
qed

theorem shorter_remainder_branch_witness:
  "length ''tenant'' \<noteq> 0 \<and>
   getEdge tree_exact (hd ''tenant'') = Some (Node (Some ()) ''tenant.abc'' []) \<and>
   HasPrefix ''tenant.abc'' ''tenant'' \<and> \<not> HasPrefix ''tenant'' ''tenant.abc'' \<and>
   \<not> matchWithWildcardsFrom tree_exact ''tenant'' ''tenant''"
proof -
  let ?c = "Node (Some ()) ''tenant.abc'' [] :: unit node"
  have a: "length ''tenant'' \<noteq> 0" by simp
  have b: "getEdge tree_exact (hd ''tenant'') = Some ?c" by code_simp
  have c: "HasPrefix (prefix ?c) ''tenant''" by code_simp
  have d: "\<not> HasPrefix ''tenant'' (prefix ?c)" by code_simp
  have e: "\<not> wildcardEdge tree_exact \<and> \<not> wildcardSuffix ?c ''tenant''" by code_simp
  from shorter_remainder_branch [OF a b c d, of "''tenant''"] e
  have "\<not> matchWithWildcardsFrom tree_exact ''tenant'' ''tenant''" by simp
  with a b c d show ?thesis by simp
qed

subsection \<open>The contract, one direction\<close>

lemma segment_wildcard_iff:
  "segment_wildcard pat key \<longleftrightarrow>
     (\<exists>p. pat = p @ ''.*'' \<and> (key = p \<or> HasPrefix key (p @ ''.'')))"
proof
  assume "segment_wildcard pat key"
  then have d: "drop (length pat - 2) pat = ''.*''"
    and k: "key = take (length pat - 2) pat \<or> HasPrefix key (take (length pat - 2) pat @ ''.'')"
    by (simp_all add: segment_wildcard_def)
  from d have "pat = take (length pat - 2) pat @ ''.*''"
    by (metis append_take_drop_id)
  with k show "\<exists>p. pat = p @ ''.*'' \<and> (key = p \<or> HasPrefix key (p @ ''.''))" by blast
next
  assume "\<exists>p. pat = p @ ''.*'' \<and> (key = p \<or> HasPrefix key (p @ ''.''))"
  then show "segment_wildcard pat key"
    by (auto simp: segment_wildcard_def)
qed

lemma contract_matches_iff:
  "contract_matches pats key \<longleftrightarrow>
     key \<in> set pats \<or>
     (\<exists>p. p @ ''.*'' \<in> set pats \<and> (key = p \<or> HasPrefix key (p @ ''.''))) \<or>
     (''*'' \<in> set pats \<and> key \<noteq> [])"
  unfolding contract_matches_def list_ex_iff segment_wildcard_iff by blast

lemma contract_matches_mono:
  "set A \<subseteq> set B \<Longrightarrow> contract_matches A key \<Longrightarrow> contract_matches B key"
  unfolding contract_matches_iff by blast

lemma wf_pattern_star_split:
  assumes "wf_pattern (c @ CHR ''*'' # r)"
  shows "r = [] \<and> (c = [] \<or> (\<exists>p. c = p @ ''.''))"
proof -
  let ?k = "c @ CHR ''*'' # r"
  from assms consider (star) "?k = ''*''"
    | (suffix) "length ?k \<ge> 2" "drop (length ?k - 2) ?k = ''.*''"
        "CHR ''*'' \<notin> set (take (length ?k - 2) ?k)"
    by (auto simp: wf_pattern_def)
  then show ?thesis
  proof cases
    case star
    then show ?thesis by (cases c) auto
  next
    case suffix
    have "\<not> length c < length ?k - 2"
    proof
      assume "length c < length ?k - 2"
      then have lt: "length c < length (take (length ?k - 2) ?k)" by simp
      have "take (length ?k - 2) ?k ! length c = ?k ! length c"
        using \<open>length c < length ?k - 2\<close> by (rule nth_take)
      also have "\<dots> = CHR ''*''" by (rule nth_append_length)
      finally have "take (length ?k - 2) ?k ! length c = CHR ''*''" .
      with nth_mem [OF lt] have "CHR ''*'' \<in> set (take (length ?k - 2) ?k)"
        by simp
      with suffix(3) show False by contradiction
    qed
    then have r1: "length r \<le> 1" by simp
    have r0: "r = []"
    proof (rule ccontr)
      assume "r \<noteq> []"
      with r1 have "length r = 1" by (cases r) auto
      then have "drop (length ?k - 2) ?k = CHR ''*'' # r" by simp
      with suffix(2) show False by simp
    qed
    with suffix(1) have cne: "c \<noteq> []" by auto
    from r0 suffix(2) cne have "drop (length c - 1) c @ ''*'' = ''.*''"
      by (simp add: Suc_diff_le)
    then have "drop (length c - 1) c = ''.''" by simp
    then have "c = take (length c - 1) c @ ''.''"
      by (metis append_take_drop_id)
    with r0 show ?thesis by blast
  qed
qed

lemma drop_last_two:
  "2 \<le> length xs \<Longrightarrow> drop (length xs - 2) xs = [xs ! (length xs - 2), xs ! (length xs - 1)]"
proof -
  assume len: "2 \<le> length xs"
  define m where "m = length xs - 2"
  from len have m: "length xs = Suc (Suc m)" unfolding m_def by arith
  then have "drop m xs = [xs ! m, xs ! Suc m]"
    by (simp add: Cons_nth_drop_Suc [symmetric])
  with m show ?thesis by simp
qed

lemma wildcardSuffix_split:
  assumes "wildcardSuffix nxt search"
  shows "\<exists>w. prefix nxt = w @ ''.*'' \<and> isLeaf nxt \<and> (search = w \<or> HasPrefix search (w @ ''.''))"
proof -
  define p where "p = prefix nxt"
  define w where "w = take (length p - 2) p"
  from assms have len: "length p \<ge> 2" and dot: "p ! (length p - 2) = CHR ''.''"
    and st: "p ! (length p - 1) = CHR ''*''" and lf: "isLeaf nxt"
    and hp: "HasPrefix search w"
    and bd: "length search = length w \<or> (length search > length w \<and> search ! length w = CHR ''.'')"
    by (simp_all add: wildcardSuffix_def Let_def p_def w_def)
  from drop_last_two [OF len] dot st have "drop (length p - 2) p = ''.*''" by simp
  then have p: "p = w @ ''.*''" unfolding w_def by (metis append_take_drop_id)
  from hp obtain r where r: "search = w @ r" by (auto simp: HasPrefix_iff)
  have "search = w \<or> HasPrefix search (w @ ''.'')"
  proof (cases r)
    case Nil
    with r show ?thesis by simp
  next
    case (Cons a r')
    with bd r have "a = CHR ''.''" by simp
    with Cons r have "search = (w @ ''.'') @ r'" by simp
    then show ?thesis by (metis HasPrefix_append)
  qed
  with p lf show ?thesis unfolding p_def by blast
qed

text \<open>
  On a radix tree whose stored patterns are well formed, a match is always justified
  by the contract. The descent is followed with the bytes consumed so far, \<open>c\<close>.
\<close>

lemma stored_child_mapped:
  assumes "getEdge n b = Some nxt"
  shows "set (map ((@) (c @ prefix nxt)) (stored nxt)) \<subseteq> set (map ((@) c) (stored n))"
proof
  fix x assume "x \<in> set (map ((@) (c @ prefix nxt)) (stored nxt))"
  then obtain k where k: "k \<in> set (stored nxt)" and x: "x = c @ prefix nxt @ k" by auto
  from stored_child [OF assms k] x show "x \<in> set (map ((@) c) (stored n))" by simp
qed

lemma match_sound:
  "radix_ok n \<Longrightarrow> list_all wf_pattern (map ((@) c) (stored n)) \<Longrightarrow>
   matchWithWildcardsFrom n originalKey search \<Longrightarrow>
   contract_matches (map ((@) c) (stored n)) (c @ search)"
proof (induction n originalKey search arbitrary: c rule: matchWithWildcardsFrom.induct)
  case (1 n originalKey search)
  let ?pats = "map ((@) c) (stored n)"
  note rk = "1.prems"(1) and wf = "1.prems"(2) and m = "1.prems"(3)
  show ?case
  proof (cases "search = []")
    case True
    with m have "isLeaf n" by (simp add: matchWithWildcardsFrom_Nil)
    from stored_leaf [OF this] True have "c @ search \<in> set ?pats" by simp
    then show ?thesis by (simp add: contract_matches_iff)
  next
    case ne: False
    show ?thesis
    proof (cases "wildcardEdge n")
      case True
      then obtain w where w: "getEdge n CHR ''*'' = Some w" and lf: "isLeaf w"
        by (auto simp: wildcardEdge_def split: option.splits)
      from radix_ok_child [OF rk getEdge_mem [OF w]]
      obtain r where r: "prefix w = CHR ''*'' # r" by (cases "prefix w") auto
      from stored_child [OF w stored_leaf [OF lf]] r
      have mem: "c @ CHR ''*'' # r \<in> set ?pats" by simp
      with wf have "wf_pattern (c @ CHR ''*'' # r)" unfolding list_all_iff by blast
      from wf_pattern_star_split [OF this]
      have r0: "r = []" and c: "c = [] \<or> (\<exists>p. c = p @ ''.'')" by simp_all
      from c show ?thesis
      proof
        assume "c = []"
        with mem r0 ne show ?thesis by (simp add: contract_matches_iff)
      next
        assume "\<exists>p. c = p @ ''.''"
        then obtain p where p: "c = p @ ''.''" ..
        with mem r0 have "p @ ''.*'' \<in> set ?pats" by simp
        moreover from p have "HasPrefix (c @ search) (p @ ''.'')"
          by (auto simp: HasPrefix_iff)
        ultimately show ?thesis unfolding contract_matches_iff by blast
      qed
    next
      case nw: False
      from m ne nw obtain nxt where nxt: "getEdge n (hd search) = Some nxt"
        by (auto simp: matchWithWildcardsFrom.simps [of n _ search] split: option.splits)
      show ?thesis
      proof (cases "wildcardSuffix nxt search")
        case True
        from wildcardSuffix_split [OF this] obtain w
          where p: "prefix nxt = w @ ''.*''" and lf: "isLeaf nxt"
            and s: "search = w \<or> HasPrefix search (w @ ''.'')" by blast
        from stored_child [OF nxt stored_leaf [OF lf]] p
        have "(c @ w) @ ''.*'' \<in> set ?pats" by simp
        moreover from s have "c @ search = c @ w \<or> HasPrefix (c @ search) ((c @ w) @ ''.'')"
          by (auto simp: HasPrefix_iff)
        ultimately show ?thesis unfolding contract_matches_iff by blast
      next
        case ns: False
        show ?thesis
        proof (cases "HasPrefix search (prefix nxt)")
          case True
          with m ne nw nxt ns
          have m': "matchWithWildcardsFrom nxt originalKey (drop (length (prefix nxt)) search)"
            by (simp add: matchWithWildcardsFrom.simps [of n _ search])
          from radix_ok_child [OF rk getEdge_mem [OF nxt]] have rk': "radix_ok nxt" by simp
          note sub = stored_child_mapped [OF nxt, of c]
          from wf sub have wf': "list_all wf_pattern (map ((@) (c @ prefix nxt)) (stored nxt))"
            unfolding list_all_iff by blast
          from ne have "length search \<noteq> 0" by simp
          from "1.IH" [OF this nw nxt ns True rk' wf' m']
          have "contract_matches (map ((@) (c @ prefix nxt)) (stored nxt))
                  ((c @ prefix nxt) @ drop (length (prefix nxt)) search)" .
          moreover from True have "prefix nxt @ drop (length (prefix nxt)) search = search"
            by (auto simp: HasPrefix_iff)
          ultimately have "contract_matches (map ((@) (c @ prefix nxt)) (stored nxt)) (c @ search)"
            by simp
          with sub show ?thesis by (rule contract_matches_mono)
        next
          case False
          then have "\<not> (HasPrefix (prefix nxt) search \<and> length search = length (prefix nxt))"
            using HasPrefix_same_length by blast
          with m ne nw nxt ns False have False
            by (auto simp: matchWithWildcardsFrom.simps [of n _ search])
          then show ?thesis ..
        qed
      qed
    qed
  qed
qed

lemma MatchWithWildcards_sound:
  assumes "radix_ok root" and "list_all wf_pattern (stored root)"
    and "MatchWithWildcards root key"
  shows "contract_matches (stored root) key"
proof (cases "key = []")
  case True
  with assms(3) have "Get root key \<noteq> None" by (simp add: MatchWithWildcards_def)
  with Get_stored [OF assms(1), of key] have "key \<in> set (stored root)" by blast
  then show ?thesis by (simp add: contract_matches_iff)
next
  case False
  show ?thesis
  proof (cases "Get root ''*'' \<noteq> None")
    case True
    with Get_stored [OF assms(1), of "''*''"] have "''*'' \<in> set (stored root)" by blast
    with False show ?thesis by (simp add: contract_matches_iff)
  next
    case nostar: False
    with assms(3) False have "matchWithWildcardsFrom root key key"
      by (simp add: MatchWithWildcards_def)
    moreover have "map ((@) []) (stored root) = stored root" by (simp add: map_idI)
    ultimately show ?thesis using match_sound [OF assms(1), of "[]" key key] assms(2) by simp
  qed
qed

text \<open>
  C5, as amended. On a well-formed tree storing \<open>p\<close> followed by \<^verbatim>\<open>.*\<close>, a key that
  starts with \<open>p\<close>, goes on, and whose next byte is not a dot does not match, unless
  another stored pattern matches it under the contract.
\<close>

theorem wildcard_needs_segment_boundary:
  assumes "radix_ok root" and "list_all wf_pattern (stored root)"
    and "p @ ''.*'' \<in> set (stored root)"
    and "k = p @ b # rest" and "b \<noteq> CHR ''.''"
    and "\<not> contract_matches (removeAll (p @ ''.*'') (stored root)) k"
  shows "\<not> MatchWithWildcards root k"
proof
  assume "MatchWithWildcards root k"
  from MatchWithWildcards_sound [OF assms(1,2) this]
  consider (exact) "k \<in> set (stored root)"
    | (wild) q where "q @ ''.*'' \<in> set (stored root)" "k = q \<or> HasPrefix k (q @ ''.'')"
    | (star) "''*'' \<in> set (stored root)" "k \<noteq> []"
    unfolding contract_matches_iff by blast
  then show False
  proof cases
    case exact
    moreover from assms(4,5) have "k \<noteq> p @ ''.*''" by simp
    ultimately have "k \<in> set (removeAll (p @ ''.*'') (stored root))" by simp
    with assms(6) show False by (simp add: contract_matches_iff)
  next
    case wild
    from assms(4,5) have "\<not> (k = p \<or> HasPrefix k (p @ ''.''))"
      by (auto simp: HasPrefix_iff)
    with wild(2) have "q \<noteq> p" by blast
    with wild(1) have "q @ ''.*'' \<in> set (removeAll (p @ ''.*'') (stored root))" by simp
    with wild(2) assms(6) show False unfolding contract_matches_iff by blast
  next
    case star
    then have "''*'' \<in> set (removeAll (p @ ''.*'') (stored root))" by simp
    with star(2) assms(6) show False by (simp add: contract_matches_iff)
  qed
qed

theorem wildcard_needs_segment_boundary_witness:
  "radix_ok tree_tenant_abc \<and> list_all wf_pattern (stored tree_tenant_abc) \<and>
   ''tenant'' @ ''.*'' \<in> set (stored tree_tenant_abc) \<and>
   ''tenantXYZ.foo'' = ''tenant'' @ CHR ''X'' # ''YZ.foo'' \<and> CHR ''X'' \<noteq> CHR ''.'' \<and>
   \<not> contract_matches (removeAll (''tenant'' @ ''.*'') (stored tree_tenant_abc)) ''tenantXYZ.foo'' \<and>
   \<not> MatchWithWildcards tree_tenant_abc ''tenantXYZ.foo''"
proof -
  have a: "radix_ok tree_tenant_abc" by code_simp
  have b: "list_all wf_pattern (stored tree_tenant_abc)" by code_simp
  have c: "''tenant'' @ ''.*'' \<in> set (stored tree_tenant_abc)" by code_simp
  have d: "''tenantXYZ.foo'' = ''tenant'' @ CHR ''X'' # ''YZ.foo''" by simp
  have e: "CHR ''X'' \<noteq> CHR ''.''" by simp
  have f: "\<not> contract_matches (removeAll (''tenant'' @ ''.*'') (stored tree_tenant_abc))
             ''tenantXYZ.foo''" by code_simp
  from wildcard_needs_segment_boundary [OF a b c d e f] a b c d e f show ?thesis by blast
qed

text \<open>
  C5 as stated fails: beside \<^verbatim>\<open>tenant.*\<close> the tree stores the exact key
  \<^verbatim>\<open>tenantXYZ.foo\<close>, and that key matches.
\<close>

theorem other_pattern_matches_counterexample:
  "stored tree_tenant_xyz = [''tenant.*'', ''tenantXYZ.foo''] \<and>
   radix_ok tree_tenant_xyz \<and>
   ''tenantXYZ.foo'' = ''tenant'' @ CHR ''X'' # ''YZ.foo'' \<and>
   MatchWithWildcards tree_tenant_xyz ''tenantXYZ.foo''"
  by code_simp

subsection \<open>The contract, the other direction, for keys that go on after the dot\<close>

text \<open>
  On every radix tree storing \<open>p\<close> followed by \<^verbatim>\<open>.*\<close>, a key that starts with \<open>p\<close> and a
  dot and has at least one more byte matches, however the edges on the way to the
  pattern are split: the descent follows the path of the pattern and stops at the
  terminal \<^verbatim>\<open>*\<close> child (lines 45 to 49) or at the label ending in \<^verbatim>\<open>.*\<close> (lines 58 to 72).
\<close>

lemma star_child:
  assumes "radix_ok n" and "''*'' \<in> set (stored n)"
  shows "wildcardEdge n"
proof -
  from stored_cases [OF assms(2)] obtain b c k'
    where e: "(b, c) \<in> set (edges n)" and k': "k' \<in> set (stored c)"
      and s: "''*'' = prefix c @ k'"
    by auto
  from radix_ok_child [OF assms(1) e]
  have rc: "radix_ok c" and ne: "prefix c \<noteq> []" and hd: "hd (prefix c) = b"
    and ge: "getEdge n b = Some c" by simp_all
  from s ne have p: "prefix c = ''*''" and k0: "k' = []"
    by (cases "prefix c"; simp)+
  from p hd have "b = CHR ''*''" by simp
  moreover from k' k0 stored_Nil_iff [OF radix_ok_nonempty_labels [OF rc]] have "isLeaf c"
    by simp
  ultimately show ?thesis using ge by (simp add: wildcardEdge_def)
qed

lemma wildcardSuffix_intro:
  assumes "prefix c = w @ ''.*''" and "isLeaf c"
  shows "wildcardSuffix c (w @ ''.'' @ rest)"
  using assms by (simp add: wildcardSuffix_def Let_def nth_append HasPrefix_def)

lemma deeper_match:
  "radix_ok n \<Longrightarrow> w @ ''.*'' \<in> set (stored n) \<Longrightarrow> rest \<noteq> [] \<Longrightarrow> search = w @ ''.'' @ rest \<Longrightarrow>
   matchWithWildcardsFrom n originalKey search"
proof (induction n originalKey search arbitrary: w rule: matchWithWildcardsFrom.induct)
  case (1 n originalKey search)
  note rk = "1.prems"(1) and st = "1.prems"(2) and rest = "1.prems"(3) and s = "1.prems"(4)
  from s have ne: "length search \<noteq> 0" by simp
  show ?case
  proof (cases "wildcardEdge n")
    case True
    with ne show ?thesis by (simp add: matchWithWildcardsFrom.simps [of n _ search])
  next
    case nw: False
    from stored_cases [OF st] obtain b c k'
      where e: "(b, c) \<in> set (edges n)" and k': "k' \<in> set (stored c)"
        and eq: "w @ ''.*'' = prefix c @ k'"
      by auto
    from radix_ok_child [OF rk e]
    have rc: "radix_ok c" and pne: "prefix c \<noteq> []" and hd: "hd (prefix c) = b"
      and ge: "getEdge n b = Some c" by simp_all
    from eq pne have "hd (w @ ''.*'') = hd (prefix c)" by simp
    moreover from s have "hd search = hd (w @ ''.*'')" by (cases w) simp_all
    ultimately have ge': "getEdge n (hd search) = Some c" using hd ge by simp
    show ?thesis
    proof (cases "wildcardSuffix c search")
      case True
      with ne nw ge' show ?thesis by (simp add: matchWithWildcardsFrom.simps [of n _ search])
    next
      case ns: False
      from eq consider (inside) u where "w = prefix c @ u" "k' = u @ ''.*''"
        | (dot) "prefix c = w @ ''.''" "k' = ''*''"
        | (whole) "prefix c = w @ ''.*''" "k' = []"
      proof -
        from eq obtain u where "(w = prefix c @ u \<and> u @ ''.*'' = k') \<or> (w @ u = prefix c \<and> ''.*'' = u @ k')"
          by (auto simp: append_eq_append_conv2)
        then show ?thesis
        proof
          assume "w = prefix c @ u \<and> u @ ''.*'' = k'"
          then show ?thesis using that(1) by blast
        next
          assume a: "w @ u = prefix c \<and> ''.*'' = u @ k'"
          then have "u = [] \<or> u = ''.'' \<or> u = ''.*''"
            by (auto simp: Cons_eq_append_conv)
          with a show ?thesis using that
            by (auto simp: Cons_eq_append_conv)
        qed
      qed
      then show ?thesis
      proof cases
        case inside
        with s have hp: "HasPrefix search (prefix c)"
          and dr: "drop (length (prefix c)) search = u @ ''.'' @ rest" by simp_all
        from inside(2) k' have "u @ ''.*'' \<in> set (stored c)" by simp
        from "1.IH" [OF ne nw ge' ns hp rc this rest dr]
        have "matchWithWildcardsFrom c originalKey (drop (length (prefix c)) search)" .
        with ne nw ge' ns hp show ?thesis
          by (simp add: matchWithWildcardsFrom.simps [of n _ search])
      next
        case dot
        with s have hp: "HasPrefix search (prefix c)"
          and dr: "drop (length (prefix c)) search = rest" by (simp_all add: HasPrefix_iff)
        from dot(2) k' have "wildcardEdge c" using star_child [OF rc] by simp
        with rest have "matchWithWildcardsFrom c originalKey rest"
          by (simp add: matchWithWildcardsFrom.simps [of c _ rest])
        with ne nw ge' ns hp dr show ?thesis
          by (simp add: matchWithWildcardsFrom.simps [of n _ search])
      next
        case whole
        from whole(2) k' stored_Nil_iff [OF radix_ok_nonempty_labels [OF rc]] have "isLeaf c"
          by simp
        from wildcardSuffix_intro [OF whole(1) this, of rest] s ns show ?thesis by simp
      qed
    qed
  qed
qed

lemma wildcard_matches_deeper_keys:
  assumes "radix_ok root" and "p @ ''.*'' \<in> set (stored root)" and "rest \<noteq> []"
  shows "MatchWithWildcards root (p @ ''.'' @ rest)"
  using deeper_match [OF assms refl, of "p @ ''.'' @ rest"]
  by (simp add: MatchWithWildcards_def)

subsection \<open>Where the result follows the shape of the tree\<close>

text \<open>
  C1. The contract does not hold in the direction from the stored patterns to the
  result. With \<^verbatim>\<open>tenant.*\<close> and \<^verbatim>\<open>tenant.abc123.*\<close> stored, the contract accepts the key
  \<^verbatim>\<open>tenant\<close> (it is the part of a stored pattern before \<^verbatim>\<open>.*\<close>) and the code rejects
  it: the edge is split after the dot, the remainder is shorter than the label
  \<^verbatim>\<open>tenant.\<close>, and lines 78 to 82 return false.
\<close>

theorem contract_fails_between_two_wildcards:
  "stored tree_two_wildcards = [''tenant.*'', ''tenant.abc123.*''] \<and>
   radix_ok tree_two_wildcards \<and>
   contract_matches (stored tree_two_wildcards) ''tenant'' \<and>
   \<not> MatchWithWildcards tree_two_wildcards ''tenant''"
  by code_simp

text \<open>
  C2. With \<^verbatim>\<open>tenant.*\<close> and \<^verbatim>\<open>tenant.abc\<close> stored the key \<^verbatim>\<open>tenant\<close> is rejected, while
  with \<^verbatim>\<open>tenant.*\<close> alone it is accepted (line 67): the answer for a key equal to the
  part before \<^verbatim>\<open>.*\<close> depends on how the edges are split.
\<close>

theorem wildcard_prefix_rejected_after_split:
  "stored tree_tenant_abc = [''tenant.*'', ''tenant.abc''] \<and>
   radix_ok tree_tenant_abc \<and>
   \<not> MatchWithWildcards tree_tenant_abc ''tenant'' \<and>
   MatchWithWildcards tree_tenant ''tenant''"
  by code_simp

text \<open>
  C3. A stored key with \<^verbatim>\<open>.*\<close> inside acts as a wildcard once its edge is split after
  the dot: with \<^verbatim>\<open>a.*x\<close> and \<^verbatim>\<open>a.b\<close> stored, the key \<^verbatim>\<open>a.zzz\<close> is not stored and
  matches, through the check of lines 45 to 49, which looks at the first byte of the
  child's label only.
\<close>

theorem inner_star_pattern_matches:
  "stored tree_inner_star = [''a.*x'', ''a.b''] \<and>
   radix_ok tree_inner_star \<and>
   Get tree_inner_star ''a.zzz'' = None \<and>
   MatchWithWildcards tree_inner_star ''a.zzz''"
  by code_simp

end
